theory Spec2Isabelle
  imports Main "HOL-Library.Multiset"
begin

section \<open>The pointer-tree heap of heap.h\<close>

text \<open>
  The heap of \<^verbatim>\<open>heap.h\<close> keeps its elements in a binary tree of nodes that own their
  children. A pointer \<^verbatim>\<open>Node<T> *\<close> is either \<^verbatim>\<open>EMPTY\<close> (the null pointer) or an
  owned node, and ownership is a strict tree, so a pointer is modelled by the subtree it
  owns. A write through a pointer held further up (\<^verbatim>\<open>tree->insert\<close>, \<^verbatim>\<open>swap_nodes\<close>)
  becomes the rebuilt subtree, handed back to the caller and re-attached there.

  A failed \<^verbatim>\<open>assert\<close> and a dereferenced null pointer end the run; both are results of
  the model, and they are kept apart. \<^verbatim>\<open>uint\<close> is a natural number, with the
  wrap-around of \<^verbatim>\<open>++this->size\<close> at \<open>2 ^ 32\<close> written out.

  Names follow the source. The field \<^verbatim>\<open>size\<close> is \<open>hsize\<close>, the two methods called
  \<^verbatim>\<open>insert\<close> are \<open>Node_insert\<close> and \<open>Heap_insert\<close>, and the helpers \<^verbatim>\<open>_get_dirlist\<close>,
  \<^verbatim>\<open>_insert_leaf\<close> and \<^verbatim>\<open>_bubble_up\<close> carry the suffix \<open>_rec\<close>.
\<close>

subsection \<open>Nodes\<close>

datatype Direction = L | R

datatype error = AssertFail | NullDeref

datatype 'a node = EMPTY | Node (data: 'a) (left: "'a node") (right: "'a node")

text \<open>\<^verbatim>\<open>Node(T data)\<close>: a leaf.\<close>

definition Node_leaf :: "'a \<Rightarrow> 'a node" where
  "Node_leaf d = Node d EMPTY EMPTY"

text \<open>\<^verbatim>\<open>Node::get_child\<close> and \<^verbatim>\<open>Node::insert\<close>, on a node that exists.\<close>

fun get_child :: "Direction \<Rightarrow> 'a node \<Rightarrow> 'a node" where
  "get_child d (Node x l r) = (if d = L then l else r)"
| "get_child d EMPTY = EMPTY"

fun Node_insert :: "Direction \<Rightarrow> 'a node \<Rightarrow> 'a node \<Rightarrow> 'a node" where
  "Node_insert d n (Node x l r) = (if d = L then Node x n r else Node x l n)"
| "Node_insert d n EMPTY = EMPTY"

subsection \<open>The heap\<close>

record 'a Heap =
  tree :: "'a node"
  hsize :: nat
  compare :: "'a \<Rightarrow> 'a \<Rightarrow> bool"

text \<open>\<^verbatim>\<open>Heap()\<close>: the default predicate is \<^verbatim>\<open>a > b\<close>.\<close>

definition Heap_default :: "('a::linorder) Heap" where
  "Heap_default = \<lparr>tree = EMPTY, hsize = 0, compare = (\<lambda>a b. a > b)\<rparr>"

text \<open>\<^verbatim>\<open>Heap(bool compare(T, T))\<close>.\<close>

definition Heap_custom :: "('a \<Rightarrow> 'a \<Rightarrow> bool) \<Rightarrow> 'a Heap" where
  "Heap_custom cmp = \<lparr>tree = EMPTY, hsize = 0, compare = cmp\<rparr>"

subsection \<open>The path encoder\<close>

text \<open>
  A \<^verbatim>\<open>std::stack<Direction>\<close> is a list whose head is the top: \<^verbatim>\<open>push\<close> conses,
  \<^verbatim>\<open>stack_pop\<close> takes the head off.
\<close>

function get_dirlist_rec :: "nat \<Rightarrow> Direction list \<Rightarrow> Direction list" where
  "get_dirlist_rec n directions =
     (if n < 2 then directions
      else get_dirlist_rec (n div 2) ((if n mod 2 = 0 then L else R) # directions))"
  by pat_completeness auto
termination
  by (relation "measure (\<lambda>(n, directions). n)") auto

declare get_dirlist_rec.simps [simp del]

definition get_dirlist :: "nat \<Rightarrow> Direction list" where
  "get_dirlist n = get_dirlist_rec n []"

subsection \<open>Insertion\<close>

text \<open>
  \<^verbatim>\<open>_insert_leaf\<close>: the assertion comes first, then \<^verbatim>\<open>tree\<close> is dereferenced on
  either branch.
\<close>

fun insert_leaf_rec :: "'a node \<Rightarrow> 'a node \<Rightarrow> Direction list \<Rightarrow> error + 'a node" where
  "insert_leaf_rec t to_insert [] = Inl AssertFail"
| "insert_leaf_rec EMPTY to_insert (direction # dirlist) = Inl NullDeref"
| "insert_leaf_rec (Node x l r) to_insert (direction # dirlist) =
     (if dirlist = [] then Inr (Node_insert direction to_insert (Node x l r))
      else (case insert_leaf_rec (get_child direction (Node x l r)) to_insert dirlist of
              Inl e \<Rightarrow> Inl e
            | Inr child \<Rightarrow> Inr (Node_insert direction child (Node x l r))))"

definition insert_leaf :: "'a node \<Rightarrow> 'a node \<Rightarrow> nat \<Rightarrow> Direction list \<Rightarrow> error + 'a node" where
  "insert_leaf t node sz dirlist =
     (if sz = 1 then Inr node else insert_leaf_rec t node dirlist)"

text \<open>
  \<^verbatim>\<open>swap_nodes(node, child)\<close> for \<^verbatim>\<open>child\<close> the child of \<^verbatim>\<open>node\<close> in direction
  \<^verbatim>\<open>d\<close>: the two values change places, the pointers stay. Both are checked to be
  non-null.
\<close>

fun swap_nodes :: "Direction \<Rightarrow> 'a node \<Rightarrow> error + 'a node" where
  "swap_nodes d EMPTY = Inl AssertFail"
| "swap_nodes d (Node a l r) =
     (case get_child d (Node a l r) of
        EMPTY \<Rightarrow> Inl AssertFail
      | Node b cl cr \<Rightarrow> Inr (Node_insert d (Node a cl cr) (Node b l r)))"

text \<open>\<^verbatim>\<open>if (compare(root_data, child_data)) swap_nodes(node, child);\<close>\<close>

fun swap_if :: "('a \<Rightarrow> 'a \<Rightarrow> bool) \<Rightarrow> Direction \<Rightarrow> 'a node \<Rightarrow> error + 'a node" where
  "swap_if cmp d EMPTY = Inl NullDeref"
| "swap_if cmp d (Node root_data l r) =
     (case get_child d (Node root_data l r) of
        EMPTY \<Rightarrow> Inl NullDeref
      | Node child_data cl cr \<Rightarrow>
          if cmp root_data child_data then swap_nodes d (Node root_data l r)
          else Inr (Node root_data l r))"

fun bubble_up_rec :: "('a \<Rightarrow> 'a \<Rightarrow> bool) \<Rightarrow> 'a node \<Rightarrow> Direction list \<Rightarrow> error + 'a node" where
  "bubble_up_rec cmp nd [] = Inl AssertFail"
| "bubble_up_rec cmp EMPTY (direction # dirlist) = Inl NullDeref"
| "bubble_up_rec cmp (Node x l r) (direction # dirlist) =
     (case get_child direction (Node x l r) of
        EMPTY \<Rightarrow> Inl NullDeref
      | Node cx cl cr \<Rightarrow>
          if dirlist = [] then swap_if cmp direction (Node x l r)
          else (case bubble_up_rec cmp (Node cx cl cr) dirlist of
                  Inl e \<Rightarrow> Inl e
                | Inr child \<Rightarrow> swap_if cmp direction (Node_insert direction child (Node x l r))))"

definition bubble_up :: "('a \<Rightarrow> 'a \<Rightarrow> bool) \<Rightarrow> 'a node \<Rightarrow> Direction list \<Rightarrow> error + 'a node" where
  "bubble_up cmp t dirlist = bubble_up_rec cmp t dirlist"

text \<open>\<^verbatim>\<open>Heap::insert\<close>; \<^verbatim>\<open>++this->size\<close> wraps at \<open>2 ^ 32\<close>.\<close>

definition Heap_insert :: "'a Heap \<Rightarrow> 'a node \<Rightarrow> error + 'a Heap" where
  "Heap_insert h node =
     (let sz = (hsize h + 1) mod 2 ^ 32;
          dirlist = get_dirlist sz
      in case insert_leaf (tree h) node sz dirlist of
           Inl e \<Rightarrow> Inl e
         | Inr t \<Rightarrow>
             if sz > 1 then
               (case bubble_up (compare h) t dirlist of
                  Inl e \<Rightarrow> Inl e
                | Inr t' \<Rightarrow> Inr (h\<lparr>tree := t', hsize := sz\<rparr>))
             else Inr (h\<lparr>tree := t, hsize := sz\<rparr>))"

subsection \<open>Extraction\<close>

text \<open>
  \<^verbatim>\<open>pop_leaf\<close> gives back the tree it has changed and the node it returns by value. At
  the last direction it reads \<^verbatim>\<open>node->data\<close>, deletes the child (a null child too:
  \<^verbatim>\<open>delete\<close> accepts it) and clears the slot.
\<close>

fun pop_leaf :: "'a node \<Rightarrow> Direction list \<Rightarrow> error + ('a node \<times> 'a node)" where
  "pop_leaf nd [] = Inl AssertFail"
| "pop_leaf EMPTY (direction # dirlist) = Inl NullDeref"
| "pop_leaf (Node x l r) (direction # dirlist) =
     (if dirlist = [] then
        Inr (Node_insert direction EMPTY (Node x l r), Node_leaf x)
      else (case pop_leaf (get_child direction (Node x l r)) dirlist of
              Inl e \<Rightarrow> Inl e
            | Inr (child, leaf) \<Rightarrow> Inr (Node_insert direction child (Node x l r), leaf)))"

text \<open>
  \<^verbatim>\<open>bubble_down\<close>. Without a left child it returns, whatever the right child is; with
  a left child alone it compares once and stops. With both, \<^verbatim>\<open>swap_nodes(node, child)\<close>
  followed by \<^verbatim>\<open>bubble_down(child)\<close> puts the child's value into the node and lets the
  node's old value sink into the child's subtree.
\<close>

fun bubble_down :: "('a \<Rightarrow> 'a \<Rightarrow> bool) \<Rightarrow> 'a node \<Rightarrow> error + 'a node" where
  "bubble_down cmp EMPTY = Inl NullDeref"
| "bubble_down cmp (Node root_data EMPTY r) = Inr (Node root_data EMPTY r)"
| "bubble_down cmp (Node root_data (Node left_data ll lr) EMPTY) =
     (if cmp root_data left_data then swap_nodes L (Node root_data (Node left_data ll lr) EMPTY)
      else Inr (Node root_data (Node left_data ll lr) EMPTY))"
| "bubble_down cmp (Node root_data (Node left_data ll lr) (Node right_data rl rr)) =
     (let comp_with_root = (if cmp left_data right_data then right_data else left_data)
      in if \<not> cmp root_data comp_with_root
         then Inr (Node root_data (Node left_data ll lr) (Node right_data rl rr))
         else
           (let dir = (if cmp right_data left_data then L else R)
            in if dir = L then
                 (case bubble_down cmp (Node root_data ll lr) of
                    Inl e \<Rightarrow> Inl e
                  | Inr child \<Rightarrow> Inr (Node left_data child (Node right_data rl rr)))
               else
                 (case bubble_down cmp (Node root_data rl rr) of
                    Inl e \<Rightarrow> Inl e
                  | Inr child \<Rightarrow> Inr (Node right_data (Node left_data ll lr) child))))"

text \<open>
  \<^verbatim>\<open>Heap::pop_top\<close>. The branch for a single element returns before \<^verbatim>\<open>size--\<close>.
\<close>

definition pop_top :: "'a Heap \<Rightarrow> error + ('a \<times> 'a Heap)" where
  "pop_top h =
     (if \<not> hsize h > 0 then Inl AssertFail
      else case tree h of
        EMPTY \<Rightarrow> Inl NullDeref
      | Node d l r \<Rightarrow>
          if hsize h = 1 then Inr (d, h\<lparr>tree := EMPTY\<rparr>)
          else (case pop_leaf (tree h) (get_dirlist (hsize h)) of
                  Inl e \<Rightarrow> Inl e
                | Inr (t, leaf) \<Rightarrow>
                    (case t of
                       EMPTY \<Rightarrow> Inl NullDeref
                     | Node y l' r' \<Rightarrow>
                         (case bubble_down (compare h) (Node (data leaf) l' r') of
                            Inl e \<Rightarrow> Inl e
                          | Inr t' \<Rightarrow> Inr (d, h\<lparr>tree := t', hsize := hsize h - 1\<rparr>)))))"

subsection \<open>Accessors\<close>

definition get_size :: "'a Heap \<Rightarrow> nat" where
  "get_size h = hsize h"

definition get_top :: "'a Heap \<Rightarrow> error + 'a" where
  "get_top h = (case tree h of EMPTY \<Rightarrow> Inl AssertFail | Node d l r \<Rightarrow> Inr d)"

subsection \<open>Sequences of calls\<close>

text \<open>
  A caller's sequence of \<^verbatim>\<open>insert(new Node<T>(v))\<close> and \<^verbatim>\<open>pop_top()\<close> calls: every
  inserted node is a fresh leaf holding the value. \<open>run\<close> collects what the pops return
  and stops at the first call that does not return.
\<close>

datatype 'a call = Insert 'a | Pop_top

fun run :: "'a Heap \<Rightarrow> 'a call list \<Rightarrow> error + ('a list \<times> 'a Heap)" where
  "run h [] = Inr ([], h)"
| "run h (Insert v # cs) =
     (case Heap_insert h (Node_leaf v) of
        Inl e \<Rightarrow> Inl e
      | Inr h' \<Rightarrow> run h' cs)"
| "run h (Pop_top # cs) =
     (case pop_top h of
        Inl e \<Rightarrow> Inl e
      | Inr (v, h') \<Rightarrow>
          (case run h' cs of
             Inl e \<Rightarrow> Inl e
           | Inr (vs, h'') \<Rightarrow> Inr (v # vs, h'')))"

section \<open>Positions and paths\<close>

text \<open>
  Level-order numbering: the root is position 1 and the children of position \<open>k\<close> are
  \<open>2 * k\<close> (left) and \<open>2 * k + 1\<close> (right). \<open>walk k ds\<close> is the position reached from
  position \<open>k\<close> by the directions \<open>ds\<close>.
\<close>

definition child_pos :: "nat \<Rightarrow> Direction \<Rightarrow> nat" where
  "child_pos k d = (if d = L then 2 * k else 2 * k + 1)"

fun walk :: "nat \<Rightarrow> Direction list \<Rightarrow> nat" where
  "walk k [] = k"
| "walk k (d # ds) = walk (child_pos k d) ds"

subsection \<open>The shape of the tree\<close>

text \<open>
  \<open>shape t k n\<close>: in the subtree \<open>t\<close> rooted at position \<open>k\<close>, a position holds a node
  exactly when it is at most \<open>n\<close>. A tree is complete with \<open>n\<close> nodes when, from the
  root, the occupied positions are exactly \<open>1, \<dots>, n\<close>: every level is full except
  the last, which is filled from the left.

  \<open>heap_ok\<close> describes the heaps the operations produce: the count fits \<^verbatim>\<open>uint\<close>, and either
  the tree is complete with \<open>hsize\<close> nodes, or the tree is empty while the count is 1.
\<close>

fun shape :: "'a node \<Rightarrow> nat \<Rightarrow> nat \<Rightarrow> bool" where
  "shape EMPTY k n = (n < k)"
| "shape (Node x l r) k n =
     (k \<le> n \<and> shape l (child_pos k L) n \<and> shape r (child_pos k R) n)"

definition complete_tree :: "'a node \<Rightarrow> nat \<Rightarrow> bool" where
  "complete_tree t n = shape t 1 n"

definition heap_ok :: "'a Heap \<Rightarrow> bool" where
  "heap_ok h = (hsize h < 2 ^ 32 \<and>
     (complete_tree (tree h) (hsize h) \<or> (tree h = EMPTY \<and> hsize h = 1)))"

subsection \<open>The order of the tree\<close>

text \<open>
  \<open>order_inv cmp t\<close>: no node of \<open>t\<close> and child of it make the predicate true, the
  node's value first. \<open>mset_node\<close> collects the values of a tree.

  A predicate is \<open>consistent\<close> when it is the strict part of a total preorder: it never
  holds in both directions, and its negation is transitive. The default \<^verbatim>\<open>a > b\<close> and
  \<^verbatim>\<open>a < b\<close> are.
\<close>

fun mset_node :: "'a node \<Rightarrow> 'a multiset" where
  "mset_node EMPTY = {#}"
| "mset_node (Node x l r) = {#x#} + mset_node l + mset_node r"

fun root_ok :: "('a \<Rightarrow> 'a \<Rightarrow> bool) \<Rightarrow> 'a \<Rightarrow> 'a node \<Rightarrow> bool" where
  "root_ok cmp p EMPTY = True"
| "root_ok cmp p (Node c l r) = (\<not> cmp p c)"

fun order_inv :: "('a \<Rightarrow> 'a \<Rightarrow> bool) \<Rightarrow> 'a node \<Rightarrow> bool" where
  "order_inv cmp EMPTY = True"
| "order_inv cmp (Node p l r) =
     (root_ok cmp p l \<and> root_ok cmp p r \<and> order_inv cmp l \<and> order_inv cmp r)"

definition consistent :: "('a \<Rightarrow> 'a \<Rightarrow> bool) \<Rightarrow> bool" where
  "consistent cmp =
     ((\<forall>a b. cmp a b \<longrightarrow> \<not> cmp b a) \<and>
      (\<forall>a b c. \<not> cmp a b \<longrightarrow> \<not> cmp b c \<longrightarrow> \<not> cmp a c))"

subsection \<open>Concrete heaps\<close>

text \<open>Heaps of integers under the default predicate and under \<^verbatim>\<open>a < b\<close>.\<close>

abbreviation min_heap :: "int node \<Rightarrow> nat \<Rightarrow> int Heap" where
  "min_heap t n \<equiv> \<lparr>tree = t, hsize = n, compare = (\<lambda>a b. a > b)\<rparr>"

abbreviation max_heap :: "int node \<Rightarrow> nat \<Rightarrow> int Heap" where
  "max_heap t n \<equiv> \<lparr>tree = t, hsize = n, compare = (\<lambda>a b. a < b)\<rparr>"

section \<open>Properties of the path encoder\<close>

lemma get_dirlist_rec_append:
  "get_dirlist_rec n acc = get_dirlist_rec n [] @ acc"
proof (induction n arbitrary: acc rule: less_induct)
  case (less n)
  show ?case
  proof (cases "n < 2")
    case True
    then show ?thesis by (simp add: get_dirlist_rec.simps)
  next
    case False
    let ?b = "if n mod 2 = 0 then L else R"
    from False have lt: "n div 2 < n" by simp
    have "get_dirlist_rec n acc = get_dirlist_rec (n div 2) (?b # acc)"
      using False by (subst get_dirlist_rec.simps) simp
    also have "\<dots> = get_dirlist_rec (n div 2) [] @ (?b # acc)"
      by (rule less.IH [OF lt])
    also have "\<dots> = (get_dirlist_rec (n div 2) [] @ [?b]) @ acc" by simp
    also have "get_dirlist_rec (n div 2) [] @ [?b] = get_dirlist_rec (n div 2) [?b]"
      by (rule less.IH [OF lt, symmetric])
    also have "get_dirlist_rec (n div 2) [?b] = get_dirlist_rec n []"
      using False by (subst (2) get_dirlist_rec.simps) simp
    finally show ?thesis .
  qed
qed

lemma get_dirlist_small: "n < 2 \<Longrightarrow> get_dirlist n = []"
  by (simp add: get_dirlist_def get_dirlist_rec.simps)

lemma get_dirlist_step:
  "2 \<le> n \<Longrightarrow> get_dirlist n = get_dirlist (n div 2) @ [if n mod 2 = 0 then L else R]"
  unfolding get_dirlist_def
  by (subst get_dirlist_rec.simps, subst get_dirlist_rec_append) simp

lemma walk_append: "walk k (ds @ es) = walk (walk k ds) es"
  by (induction ds arbitrary: k) simp_all

lemma walk_get_dirlist: "1 \<le> n \<Longrightarrow> walk 1 (get_dirlist n) = n"
proof (induction n rule: less_induct)
  case (less n)
  show ?case
  proof (cases "n < 2")
    case True
    with less.prems show ?thesis by (simp add: get_dirlist_small)
  next
    case False
    then have "n div 2 < n" "1 \<le> n div 2" by simp_all
    then have "walk 1 (get_dirlist (n div 2)) = n div 2" by (rule less.IH)
    moreover have "n mod 2 = 0 \<Longrightarrow> 2 * (n div 2) = n" by auto
    moreover have "n mod 2 \<noteq> 0 \<Longrightarrow> Suc (2 * (n div 2)) = n"
      by (metis One_nat_def mod_mult_div_eq not_mod_2_eq_0_eq_1 plus_1_eq_Suc)
    ultimately show ?thesis using False
      by (simp add: get_dirlist_step walk_append child_pos_def)
  qed
qed

lemma get_dirlist_nonempty: "2 \<le> n \<Longrightarrow> get_dirlist n \<noteq> []"
  by (simp add: get_dirlist_step)

lemma length_get_dirlist:
  "1 \<le> n \<Longrightarrow> 2 ^ length (get_dirlist n) \<le> n \<and> n < 2 ^ Suc (length (get_dirlist n))"
proof (induction n rule: less_induct)
  case (less n)
  show ?case
  proof (cases "n < 2")
    case True
    with less.prems show ?thesis by (simp add: get_dirlist_small)
  next
    case False
    then have "n div 2 < n" "1 \<le> n div 2" by simp_all
    then have "2 ^ length (get_dirlist (n div 2)) \<le> n div 2 \<and>
       n div 2 < 2 ^ Suc (length (get_dirlist (n div 2)))" by (rule less.IH)
    then have a: "(2::nat) ^ length (get_dirlist (n div 2)) \<le> n div 2"
      and b: "n div 2 < 2 * 2 ^ length (get_dirlist (n div 2))" by simp_all
    have "2 * (n div 2) \<le> n" "n < 2 * (n div 2) + 2" by linarith+
    with a b have "2 * 2 ^ length (get_dirlist (n div 2)) \<le> n"
      "n < 2 * (2 * 2 ^ length (get_dirlist (n div 2)))" by linarith+
    with False show ?thesis
      by (simp add: get_dirlist_step)
  qed
qed

lemma bits_get_dirlist:
  "1 \<le> n \<Longrightarrow> i < length (get_dirlist n) \<Longrightarrow>
     (get_dirlist n ! i = R) = bit n (length (get_dirlist n) - 1 - i)"
proof (induction n arbitrary: i rule: less_induct)
  case (less n)
  show ?case
  proof (cases "n < 2")
    case True
    with less.prems show ?thesis by (simp add: get_dirlist_small)
  next
    case False
    let ?m = "n div 2"
    let ?ds = "get_dirlist ?m"
    from False have m: "?m < n" "1 \<le> ?m" by simp_all
    have ds: "get_dirlist n = ?ds @ [if n mod 2 = 0 then L else R]"
      using False by (simp add: get_dirlist_step)
    show ?thesis
    proof (cases "i < length ?ds")
      case True
      have "(?ds ! i = R) = bit ?m (length ?ds - 1 - i)"
        using m True by (rule less.IH)
      moreover have "length ?ds - i = Suc (length ?ds - 1 - i)"
        using True by simp
      ultimately show ?thesis
        using True by (simp add: ds nth_append bit_Suc)
    next
      case False
      with less.prems(2) have "i = length ?ds" by (simp add: ds)
      then show ?thesis
        by (simp add: ds nth_append bit_0 odd_iff_mod_2_eq_one)
    qed
  qed
qed

lemma child_pos_ge: "k \<le> child_pos k d"
  by (simp add: child_pos_def)

lemma walk_ge: "k \<le> walk k ds"
proof (induction ds arbitrary: k)
  case Nil
  show ?case by simp
next
  case (Cons d ds)
  have "k \<le> child_pos k d" by (rule child_pos_ge)
  also have "\<dots> \<le> walk (child_pos k d) ds" by (rule Cons.IH)
  finally show ?case by simp
qed

lemma walk_gt: "1 \<le> k \<Longrightarrow> ds \<noteq> [] \<Longrightarrow> k < walk k ds"
proof (cases ds)
  case Nil
  assume "ds \<noteq> []" with Nil show ?thesis by simp
next
  case (Cons d es)
  assume "1 \<le> k"
  then have "k < child_pos k d" by (simp add: child_pos_def)
  also have "\<dots> \<le> walk (child_pos k d) es" by (rule walk_ge)
  finally show ?thesis using Cons by simp
qed

lemma walk_snoc: "walk k (ds @ [d]) = child_pos (walk k ds) d"
  by (simp add: walk_append)

lemma child_pos_inj: "child_pos a d = child_pos b e \<Longrightarrow> a = b \<and> d = e"
  by (cases d; cases e; simp add: child_pos_def; arith)

lemma walk_inj: "1 \<le> k \<Longrightarrow> walk k ds = walk k es \<Longrightarrow> ds = es"
proof (induction ds arbitrary: es rule: rev_induct)
  case Nil
  then show ?case using walk_gt [of k es] by (cases "es = []") auto
next
  case (snoc d ds)
  show ?case
  proof (cases es rule: rev_cases)
    case Nil
    with snoc.prems show ?thesis using walk_gt [of k "ds @ [d]"] by auto
  next
    case (snoc es' e)
    with snoc.prems have "child_pos (walk k ds) d = child_pos (walk k es') e"
      by (simp add: walk_snoc)
    then have "walk k ds = walk k es'" "d = e" using child_pos_inj by blast+
    with snoc.IH [OF snoc.prems(1)] snoc show ?thesis by simp
  qed
qed

lemma walk_sibling:
  assumes "1 \<le> k" "d \<noteq> e"
  shows "walk (child_pos k d) ds \<noteq> walk (child_pos k e) es"
proof
  assume "walk (child_pos k d) ds = walk (child_pos k e) es"
  then have "walk k (d # ds) = walk k (e # es)" by simp
  with assms(1) have "d # ds = e # es" by (rule walk_inj)
  with assms(2) show False by simp
qed


section \<open>The shape is kept\<close>

lemma shape_grow:
  "shape t j n \<Longrightarrow> (\<And>ds. walk j ds \<noteq> Suc n) \<Longrightarrow> shape t j (Suc n)"
proof (induction t arbitrary: j)
  case EMPTY
  from EMPTY.prems(2) [of "[]"] EMPTY.prems(1) show ?case by simp
next
  case (Node x l r)
  have "\<And>d ds. walk (child_pos j d) ds \<noteq> Suc n"
    using Node.prems(2) [of "_ # _"] by simp
  with Node.IH Node.prems(1) show ?case by simp
qed

lemma shape_shrink:
  "shape t j (Suc n) \<Longrightarrow> (\<And>ds. walk j ds \<noteq> Suc n) \<Longrightarrow> shape t j n"
proof (induction t arbitrary: j)
  case EMPTY
  then show ?case by simp
next
  case (Node x l r)
  have "\<And>d ds. walk (child_pos j d) ds \<noteq> Suc n"
    using Node.prems(2) [of "_ # _"] by simp
  moreover from Node.prems(2) [of "[]"] Node.prems(1) have "j \<le> n" by simp
  ultimately show ?case using Node.IH Node.prems(1) by simp
qed

lemma shape_Node_insert:
  "shape (Node_insert d c (Node x l r)) k n =
     (k \<le> n \<and> shape c (child_pos k d) n \<and>
      shape (get_child (if d = L then R else L) (Node x l r)) (child_pos k (if d = L then R else L)) n)"
  by (cases d) auto

lemma shape_get_child:
  "shape (Node x l r) k n \<Longrightarrow> shape (get_child d (Node x l r)) (child_pos k d) n"
  by (cases d) auto

lemma shape_Node_iff: "k \<le> n \<Longrightarrow> shape t k n \<Longrightarrow> \<exists>x l r. t = Node x l r"
  by (cases t) auto

lemma insert_leaf_rec_shape:
  assumes "1 \<le> k" "shape t k n" "ds \<noteq> []" "walk k ds = Suc n"
  shows "\<exists>t'. insert_leaf_rec t (Node_leaf v) ds = Inr t' \<and> shape t' k (Suc n)"
  using assms
proof (induction ds arbitrary: t k)
  case Nil
  then show ?case by simp
next
  case (Cons d ds)
  let ?e = "if d = L then R else L"
  have "k < walk k (d # ds)" using Cons.prems(1) by (intro walk_gt) simp_all
  with Cons.prems(4) have kn: "k \<le> n" by simp
  with Cons.prems(2) obtain x l r where t: "t = Node x l r"
    using shape_Node_iff by blast
  have w: "walk (child_pos k d) ds = Suc n" using Cons.prems(4) by simp
  have "\<And>es. walk (child_pos k ?e) es \<noteq> Suc n"
    using walk_sibling [OF Cons.prems(1), of ?e d _ ds] w by (metis Direction.distinct(1))
  moreover have "shape (get_child ?e t) (child_pos k ?e) n"
    using Cons.prems(2) unfolding t by (rule shape_get_child)
  ultimately have sib: "shape (get_child ?e t) (child_pos k ?e) (Suc n)"
    by (rule shape_grow [rotated])
  show ?case
  proof (cases "ds = []")
    case True
    with w have "child_pos k d = Suc n" by simp
    then have "shape (Node_leaf v) (child_pos k d) (Suc n)"
      by (simp add: Node_leaf_def child_pos_def)
    with sib kn True show ?thesis
      unfolding t by (cases d) simp_all
  next
    case False
    have "1 \<le> child_pos k d" using Cons.prems(1) by (simp add: child_pos_def)
    moreover have "shape (get_child d t) (child_pos k d) n"
      using Cons.prems(2) unfolding t by (rule shape_get_child)
    ultimately obtain c' where c': "insert_leaf_rec (get_child d t) (Node_leaf v) ds = Inr c'"
      "shape c' (child_pos k d) (Suc n)"
      using Cons.IH [OF _ _ False w] by blast
    with sib kn False show ?thesis
      unfolding t by (cases d) simp_all
  qed
qed

lemma pop_leaf_shape:
  assumes "1 \<le> k" "shape t k (Suc n)" "ds \<noteq> []" "walk k ds = Suc n"
  shows "\<exists>t' lf. pop_leaf t ds = Inr (t', lf) \<and> shape t' k n \<and> t' \<noteq> EMPTY"
  using assms
proof (induction ds arbitrary: t k)
  case Nil
  then show ?case by simp
next
  case (Cons d ds)
  let ?e = "if d = L then R else L"
  have "k < walk k (d # ds)" using Cons.prems(1) by (intro walk_gt) simp_all
  with Cons.prems(4) have kn: "k \<le> n" by simp
  with Cons.prems(2) obtain x l r where t: "t = Node x l r"
    using shape_Node_iff [of k "Suc n" t] by auto
  have w: "walk (child_pos k d) ds = Suc n" using Cons.prems(4) by simp
  have "\<And>es. walk (child_pos k ?e) es \<noteq> Suc n"
    using walk_sibling [OF Cons.prems(1), of ?e d _ ds] w by (metis Direction.distinct(1))
  moreover have "shape (get_child ?e t) (child_pos k ?e) (Suc n)"
    using Cons.prems(2) unfolding t by (rule shape_get_child)
  ultimately have sib: "shape (get_child ?e t) (child_pos k ?e) n"
    by (rule shape_shrink [rotated])
  show ?case
  proof (cases "ds = []")
    case True
    with w have "child_pos k d = Suc n" by simp
    then have "shape EMPTY (child_pos k d) n" by simp
    with sib kn True show ?thesis
      unfolding t by (cases d) simp_all
  next
    case False
    have "1 \<le> child_pos k d" using Cons.prems(1) by (simp add: child_pos_def)
    moreover have "shape (get_child d t) (child_pos k d) (Suc n)"
      using Cons.prems(2) unfolding t by (rule shape_get_child)
    ultimately obtain c' lf where c': "pop_leaf (get_child d t) ds = Inr (c', lf)"
      "shape c' (child_pos k d) n"
      using Cons.IH [OF _ _ False w] by blast
    with sib kn False show ?thesis
      unfolding t by (cases d) simp_all
  qed
qed

lemma swap_nodes_shape:
  assumes "get_child d (Node x l r) \<noteq> EMPTY"
  shows "\<exists>t'. swap_nodes d (Node x l r) = Inr t' \<and> (\<forall>k n. shape t' k n = shape (Node x l r) k n)"
proof -
  from assms obtain b cl cr where c: "get_child d (Node x l r) = Node b cl cr"
    by (cases "get_child d (Node x l r)") auto
  then show ?thesis by (cases d) auto
qed

lemma swap_if_shape:
  assumes "get_child d (Node x l r) \<noteq> EMPTY"
  shows "\<exists>t'. swap_if cmp d (Node x l r) = Inr t' \<and> (\<forall>k n. shape t' k n = shape (Node x l r) k n)"
proof -
  from assms obtain b cl cr where c: "get_child d (Node x l r) = Node b cl cr"
    by (cases "get_child d (Node x l r)") auto
  show ?thesis
  proof (cases "cmp x b")
    case True
    with c swap_nodes_shape [OF assms] show ?thesis by simp
  next
    case False
    with c show ?thesis by simp
  qed
qed

lemma bubble_up_rec_shape:
  assumes "shape t k n" "ds \<noteq> []" "walk k ds = n"
  shows "\<exists>t'. bubble_up_rec cmp t ds = Inr t' \<and> shape t' k n"
  using assms
proof (induction ds arbitrary: t k)
  case Nil
  then show ?case by simp
next
  case (Cons d ds)
  have "k \<le> walk k (d # ds)" by (rule walk_ge)
  with Cons.prems(3) have kn: "k \<le> n" by simp
  with Cons.prems(1) obtain x l r where t: "t = Node x l r"
    using shape_Node_iff by blast
  have w: "walk (child_pos k d) ds = n" using Cons.prems(3) by simp
  have cn: "child_pos k d \<le> n" using walk_ge [of "child_pos k d" ds] w by simp
  have sc: "shape (get_child d t) (child_pos k d) n"
    using Cons.prems(1) unfolding t by (rule shape_get_child)
  with cn obtain cx cl cr where c: "get_child d (Node x l r) = Node cx cl cr"
    using shape_Node_iff unfolding t by blast
  show ?case
  proof (cases "ds = []")
    case True
    have "get_child d (Node x l r) \<noteq> EMPTY" using c by simp
    from swap_if_shape [OF this, of cmp] obtain t' where t':
      "swap_if cmp d (Node x l r) = Inr t'" "\<forall>k n. shape t' k n = shape (Node x l r) k n"
      by blast
    have "bubble_up_rec cmp t (d # ds) = swap_if cmp d (Node x l r)"
      unfolding t using c True by simp
    with t'(1) have "bubble_up_rec cmp t (d # ds) = Inr t'" by (simp only:)
    moreover have "shape t' k n" using t'(2) Cons.prems(1) unfolding t by blast
    ultimately show ?thesis by blast
  next
    case False
    from Cons.IH [OF sc False w] obtain c' where c':
      "bubble_up_rec cmp (Node cx cl cr) ds = Inr c'" "shape c' (child_pos k d) n"
      unfolding t c by blast
    from c'(2) cn obtain y yl yr where y: "c' = Node y yl yr"
      using shape_Node_iff by blast
    obtain z zl zr where z: "Node_insert d c' (Node x l r) = Node z zl zr"
      by (cases d) simp_all
    have gz: "get_child d (Node z zl zr) \<noteq> EMPTY"
      using z y by (cases d) auto
    have sz: "shape (Node z zl zr) k n"
      using Cons.prems(1) c'(2) unfolding t z [symmetric] by (cases d) auto
    from swap_if_shape [OF gz, of cmp] obtain t' where t':
      "swap_if cmp d (Node z zl zr) = Inr t'" "\<forall>k n. shape t' k n = shape (Node z zl zr) k n"
      by blast
    have "bubble_up_rec cmp t (d # ds) = swap_if cmp d (Node z zl zr)"
      unfolding t using c c'(1) False z by simp
    with t'(1) have "bubble_up_rec cmp t (d # ds) = Inr t'" by (simp only:)
    moreover have "shape t' k n" using t'(2) sz by blast
    ultimately show ?thesis by blast
  qed
qed

lemma bubble_down_shape:
  "t \<noteq> EMPTY \<Longrightarrow> \<exists>t'. bubble_down cmp t = Inr t' \<and> (\<forall>k n. shape t' k n = shape t k n)"
proof (induction cmp t rule: bubble_down.induct)
  case (1 cmp)
  then show ?case by simp
next
  case (2 cmp root_data r)
  show ?case by simp
next
  case (3 cmp root_data left_data ll lr)
  show ?case by simp
next
  case (4 cmp root_data left_data ll lr right_data rl rr)
  let ?comp = "if cmp left_data right_data then right_data else left_data"
  show ?case
  proof (cases "cmp root_data ?comp")
    case False
    then show ?thesis by (simp add: Let_def)
  next
    case True
    show ?thesis
    proof (cases "cmp right_data left_data")
      case l: True
      from 4(1) [OF refl _ refl] True l
      obtain c where "bubble_down cmp (Node root_data ll lr) = Inr c"
        "\<forall>k n. shape c k n = shape (Node root_data ll lr) k n" by auto
      with True l show ?thesis by (simp add: Let_def)
    next
      case r: False
      from 4(2) [OF refl _ refl] True r
      obtain c where "bubble_down cmp (Node root_data rl rr) = Inr c"
        "\<forall>k n. shape c k n = shape (Node root_data rl rr) k n" by auto
      with True r show ?thesis by (simp add: Let_def)
    qed
  qed
qed


lemma get_dirlist_2: "get_dirlist 2 = [L]"
  by (simp add: get_dirlist_def get_dirlist_rec.simps)

lemma Heap_insert_ok:
  assumes "heap_ok h" "Heap_insert h (Node_leaf v) = Inr h'"
  shows "heap_ok h' \<and> compare h' = compare h \<and> hsize h' = hsize h + 1"
proof -
  let ?n = "hsize h"
  from assms(1) have lt: "?n < 2 ^ 32" by (simp add: heap_ok_def)
  from assms(1) consider
    (bad) "tree h = EMPTY" "?n = 1" | (good) "shape (tree h) 1 ?n"
    by (auto simp: heap_ok_def complete_tree_def)
  then show ?thesis
  proof cases
    case bad
    moreover have "get_dirlist (Suc (Suc 0)) = [L]"
      using get_dirlist_2 by (simp add: numeral_2_eq_2)
    ultimately have "Heap_insert h (Node_leaf v) = Inl NullDeref"
      by (simp add: Heap_insert_def insert_leaf_def)
    with assms(2) show ?thesis by simp
  next
    case good
    show ?thesis
    proof (cases "Suc ?n = 2 ^ 32")
      case True
      then have "(?n + 1) mod 2 ^ 32 = 0" by simp
      then have "Heap_insert h (Node_leaf v) = Inl AssertFail"
        by (simp add: Heap_insert_def insert_leaf_def get_dirlist_small)
      with assms(2) show ?thesis by simp
    next
      case False
      with lt have sz: "(?n + 1) mod 2 ^ 32 = Suc ?n" by simp
      have lt': "Suc ?n < 2 ^ 32" using False lt by simp
      show ?thesis
      proof (cases "?n = 0")
        case True
        with sz have "Heap_insert h (Node_leaf v) = Inr (h\<lparr>tree := Node_leaf v, hsize := 1\<rparr>)"
          by (simp add: Heap_insert_def insert_leaf_def)
        with assms(2) have "h' = h\<lparr>tree := Node_leaf v, hsize := 1\<rparr>" by simp
        with True show ?thesis
          by (simp add: heap_ok_def complete_tree_def Node_leaf_def child_pos_def)
      next
        case False
        let ?ds = "get_dirlist (Suc ?n)"
        from False have ne: "?ds \<noteq> []" by (intro get_dirlist_nonempty) simp
        have w: "walk 1 ?ds = Suc ?n" by (intro walk_get_dirlist) simp
        from insert_leaf_rec_shape [OF _ good ne w, of v] obtain t1 where t1:
          "insert_leaf_rec (tree h) (Node_leaf v) ?ds = Inr t1" "shape t1 1 (Suc ?n)"
          by auto
        from bubble_up_rec_shape [OF t1(2) ne w, of "compare h"] obtain t2 where t2:
          "bubble_up_rec (compare h) t1 ?ds = Inr t2" "shape t2 1 (Suc ?n)"
          by auto
        from False sz t1(1) t2(1)
        have "Heap_insert h (Node_leaf v) = Inr (h\<lparr>tree := t2, hsize := Suc ?n\<rparr>)"
          by (simp add: Heap_insert_def insert_leaf_def bubble_up_def)
        with assms(2) have "h' = h\<lparr>tree := t2, hsize := Suc ?n\<rparr>" by simp
        with t2(2) lt' show ?thesis by (simp add: heap_ok_def complete_tree_def)
      qed
    qed
  qed
qed

section \<open>The order is kept\<close>

lemma consistent_asym: "consistent cmp \<Longrightarrow> cmp a b \<Longrightarrow> \<not> cmp b a"
  unfolding consistent_def by blast

lemma consistent_irrefl: "consistent cmp \<Longrightarrow> \<not> cmp a a"
  unfolding consistent_def by blast

lemma consistent_trans: "consistent cmp \<Longrightarrow> \<not> cmp a b \<Longrightarrow> \<not> cmp b c \<Longrightarrow> \<not> cmp a c"
  unfolding consistent_def by blast

lemma root_ok_trans:
  "consistent cmp \<Longrightarrow> \<not> cmp a b \<Longrightarrow> root_ok cmp b t \<Longrightarrow> root_ok cmp a t"
  by (cases t) (auto dest: consistent_trans)

lemma root_okI: "(\<And>e. e \<in># mset_node t \<Longrightarrow> \<not> cmp p e) \<Longrightarrow> root_ok cmp p t"
  by (cases t) auto

lemma root_least:
  "consistent cmp \<Longrightarrow> order_inv cmp t \<Longrightarrow> root_ok cmp p t \<Longrightarrow>
     e \<in># mset_node t \<Longrightarrow> \<not> cmp p e"
proof (induction t arbitrary: p)
  case EMPTY
  then show ?case by simp
next
  case (Node x l r)
  from Node.prems have px: "\<not> cmp p x" by simp
  from Node.prems(4) consider "e = x" | "e \<in># mset_node l" | "e \<in># mset_node r"
    by auto
  then show ?case
  proof cases
    case 1
    with px show ?thesis by simp
  next
    case 2
    have "root_ok cmp p l"
      using Node.prems(1) px by (rule root_ok_trans) (use Node.prems(2) in simp)
    with Node.IH(1) [OF Node.prems(1) _ _ 2] Node.prems(2) show ?thesis by simp
  next
    case 3
    have "root_ok cmp p r"
      using Node.prems(1) px by (rule root_ok_trans) (use Node.prems(2) in simp)
    with Node.IH(2) [OF Node.prems(1) _ _ 3] Node.prems(2) show ?thesis by simp
  qed
qed

lemma below_root:
  assumes "consistent cmp" "order_inv cmp (Node x l r)"
    "e \<in># mset_node l + mset_node r"
  shows "\<not> cmp x e"
proof -
  from assms(2) have "root_ok cmp x l" "root_ok cmp x r" "order_inv cmp l" "order_inv cmp r"
    by simp_all
  with assms(1,3) root_least [of cmp l x e] root_least [of cmp r x e] show ?thesis
    by auto
qed

text \<open>One step of the way up, with the child on the left.\<close>

lemma swap_if_order_L:
  assumes cons: "consistent cmp"
    and ot: "order_inv cmp (Node x l r)"
    and oc: "order_inv cmp c"
    and sub: "mset_node c \<subseteq># mset_node l + {#v#}"
    and sw: "swap_if cmp L (Node x c r) = Inr t2"
  shows "order_inv cmp t2 \<and> mset_node t2 \<subseteq># mset_node (Node x l r) + {#v#}"
proof -
  from sw obtain y yl yr where c: "c = Node y yl yr" by (cases c) auto
  from ot have xr: "root_ok cmp x r" and orr: "order_inv cmp r" by simp_all
  have xl: "\<not> cmp x e" if "e \<in># mset_node l" for e
    using below_root [OF cons ot, of e] that by simp
  show ?thesis
  proof (cases "cmp x y")
    case False
    with sw c have t2: "t2 = Node x c r" by simp
    from False c oc xr orr have "order_inv cmp t2" unfolding t2 by simp
    moreover have "mset_node t2 \<subseteq># mset_node (Node x l r) + {#v#}"
      unfolding t2 using sub by (simp add: subset_mset.add_mono)
    ultimately show ?thesis ..
  next
    case True
    with sw c have t2: "t2 = Node y (Node x yl yr) r" by simp
    have "y \<in># mset_node l + {#v#}"
      using sub unfolding c by (simp add: insert_subset_eq_iff)
    with True xl have yv: "y = v" by auto
    from sub have rest: "mset_node yl + mset_node yr \<subseteq># mset_node l"
      unfolding c yv by simp
    have xc: "\<not> cmp x e" if "e \<in># mset_node yl + mset_node yr" for e
      using xl that rest by (meson mset_subset_eqD)
    have yx: "\<not> cmp y x" using cons True by (rule consistent_asym)
    have "root_ok cmp x yl" "root_ok cmp x yr"
      using xc by (auto intro!: root_okI)
    moreover have "root_ok cmp y r" using cons yx xr by (rule root_ok_trans)
    moreover from oc have "order_inv cmp yl" "order_inv cmp yr" unfolding c by simp_all
    ultimately have "order_inv cmp t2" unfolding t2 using yx orr by simp
    moreover have "mset_node t2 \<subseteq># mset_node (Node x l r) + {#v#}"
      unfolding t2 yv using rest by (simp add: subset_mset.add_mono)
    ultimately show ?thesis ..
  qed
qed

lemma swap_if_order_R:
  assumes cons: "consistent cmp"
    and ot: "order_inv cmp (Node x l r)"
    and oc: "order_inv cmp c"
    and sub: "mset_node c \<subseteq># mset_node r + {#v#}"
    and sw: "swap_if cmp R (Node x l c) = Inr t2"
  shows "order_inv cmp t2 \<and> mset_node t2 \<subseteq># mset_node (Node x l r) + {#v#}"
proof -
  from sw obtain y yl yr where c: "c = Node y yl yr" by (cases c) auto
  from ot have xl: "root_ok cmp x l" and ol: "order_inv cmp l" by simp_all
  have xr: "\<not> cmp x e" if "e \<in># mset_node r" for e
    using below_root [OF cons ot, of e] that by simp
  show ?thesis
  proof (cases "cmp x y")
    case False
    with sw c have t2: "t2 = Node x l c" by simp
    from False c oc xl ol have "order_inv cmp t2" unfolding t2 by simp
    moreover have "mset_node t2 \<subseteq># mset_node (Node x l r) + {#v#}"
      unfolding t2 using sub by (simp add: subset_mset.add_mono)
    ultimately show ?thesis ..
  next
    case True
    with sw c have t2: "t2 = Node y l (Node x yl yr)" by simp
    have "y \<in># mset_node r + {#v#}"
      using sub unfolding c by (simp add: insert_subset_eq_iff)
    with True xr have yv: "y = v" by auto
    from sub have rest: "mset_node yl + mset_node yr \<subseteq># mset_node r"
      unfolding c yv by simp
    have xc: "\<not> cmp x e" if "e \<in># mset_node yl + mset_node yr" for e
      using xr that rest by (meson mset_subset_eqD)
    have yx: "\<not> cmp y x" using cons True by (rule consistent_asym)
    have "root_ok cmp x yl" "root_ok cmp x yr"
      using xc by (auto intro!: root_okI)
    moreover have "root_ok cmp y l" using cons yx xl by (rule root_ok_trans)
    moreover from oc have "order_inv cmp yl" "order_inv cmp yr" unfolding c by simp_all
    ultimately have "order_inv cmp t2" unfolding t2 using yx ol by simp
    moreover have "mset_node t2 \<subseteq># mset_node (Node x l r) + {#v#}"
      unfolding t2 yv using rest by (simp add: subset_mset.add_mono)
    ultimately show ?thesis ..
  qed
qed

lemma swap_if_order:
  assumes "consistent cmp" "order_inv cmp (Node x l r)" "order_inv cmp c"
    "mset_node c \<subseteq># mset_node (get_child d (Node x l r)) + {#v#}"
    "swap_if cmp d (Node_insert d c (Node x l r)) = Inr t2"
  shows "order_inv cmp t2 \<and> mset_node t2 \<subseteq># mset_node (Node x l r) + {#v#}"
proof (cases d)
  case L
  with assms show ?thesis using swap_if_order_L [of cmp x l r c v t2] by simp
next
  case R
  with assms show ?thesis using swap_if_order_R [of cmp x l r c v t2] by simp
qed


lemma Node_insert_twice:
  "Node_insert d c (Node_insert d c1 (Node x l r)) = Node_insert d c (Node x l r)"
  by (cases d) simp_all

lemma get_child_Node_insert: "get_child d (Node_insert d c (Node x l r)) = c"
  by (cases d) simp_all

lemma insert_bubble_order:
  assumes "consistent cmp" "order_inv cmp t"
    "insert_leaf_rec t (Node_leaf v) ds = Inr t1" "bubble_up_rec cmp t1 ds = Inr t2"
  shows "order_inv cmp t2 \<and> mset_node t2 \<subseteq># mset_node t + {#v#}"
  using assms
proof (induction ds arbitrary: t t1 t2)
  case Nil
  then show ?case by simp
next
  case (Cons d ds)
  from Cons.prems(3) obtain x l r where t: "t = Node x l r" by (cases t) auto
  show ?case
  proof (cases "ds = []")
    case True
    with Cons.prems(3) have t1: "t1 = Node_insert d (Node_leaf v) (Node x l r)"
      unfolding t by simp
    obtain z zl zr where z: "t1 = Node z zl zr" unfolding t1 by (cases d) simp_all
    have "get_child d t1 = Node v EMPTY EMPTY"
      unfolding t1 by (simp only: get_child_Node_insert Node_leaf_def)
    with Cons.prems(4) True
    have sw: "swap_if cmp d (Node_insert d (Node_leaf v) (Node x l r)) = Inr t2"
      unfolding z t1 [symmetric] by simp
    have "order_inv cmp (Node_leaf v)" by (simp add: Node_leaf_def)
    moreover have "mset_node (Node_leaf v) \<subseteq># mset_node (get_child d (Node x l r)) + {#v#}"
      by (simp add: Node_leaf_def)
    ultimately show ?thesis
      using swap_if_order [OF Cons.prems(1) _ _ _ sw] Cons.prems(2) unfolding t by blast
  next
    case False
    with Cons.prems(3) obtain c1 where c1:
      "insert_leaf_rec (get_child d (Node x l r)) (Node_leaf v) ds = Inr c1"
      "t1 = Node_insert d c1 (Node x l r)"
      unfolding t by (auto split: sum.splits)
    obtain z zl zr where z: "t1 = Node z zl zr" unfolding c1(2) by (cases d) simp_all
    have gc: "get_child d (Node z zl zr) = c1"
      unfolding z [symmetric] c1(2) by (rule get_child_Node_insert)
    from Cons.prems(4) False obtain c2 where c2:
      "bubble_up_rec cmp c1 ds = Inr c2"
      "swap_if cmp d (Node_insert d c2 (Node z zl zr)) = Inr t2"
      unfolding z using gc by (auto split: node.splits sum.splits)
    from c2(2) have sw: "swap_if cmp d (Node_insert d c2 (Node x l r)) = Inr t2"
      unfolding z [symmetric] c1(2) Node_insert_twice .
    have oc: "order_inv cmp (get_child d (Node x l r))"
      using Cons.prems(2) unfolding t by (cases d) simp_all
    from Cons.IH [OF Cons.prems(1) oc c1(1) c2(1)]
    have "order_inv cmp c2" "mset_node c2 \<subseteq># mset_node (get_child d (Node x l r)) + {#v#}"
      by simp_all
    then show ?thesis
      using swap_if_order [OF Cons.prems(1) _ _ _ sw] Cons.prems(2) unfolding t by blast
  qed
qed

lemma pop_leaf_root:
  "pop_leaf t ds = Inr (t', lf) \<Longrightarrow> root_ok cmp p t \<Longrightarrow> root_ok cmp p t'"
  by (cases t; cases ds; cases "hd ds")
     (auto split: if_splits sum.splits prod.splits)

lemma pop_leaf_order:
  "order_inv cmp t \<Longrightarrow> pop_leaf t ds = Inr (t', lf) \<Longrightarrow> order_inv cmp t'"
proof (induction ds arbitrary: t t')
  case Nil
  then show ?case by simp
next
  case (Cons d ds)
  from Cons.prems(2) obtain x l r where t: "t = Node x l r" by (cases t) auto
  show ?case
  proof (cases "ds = []")
    case True
    with Cons.prems show ?thesis unfolding t by (cases d) auto
  next
    case False
    with Cons.prems(2) obtain c where c:
      "pop_leaf (get_child d (Node x l r)) ds = Inr (c, lf)"
      "t' = Node_insert d c (Node x l r)"
      unfolding t by (auto split: sum.splits prod.splits)
    have "order_inv cmp (get_child d (Node x l r))"
      using Cons.prems(1) unfolding t by (cases d) simp_all
    from Cons.IH [OF this c(1)] have oc: "order_inv cmp c" .
    have "root_ok cmp x (get_child d (Node x l r))"
      using Cons.prems(1) unfolding t by (cases d) simp_all
    with c(1) have "root_ok cmp x c" by (rule pop_leaf_root)
    with oc Cons.prems(1) show ?thesis unfolding t c(2) by (cases d) simp_all
  qed
qed


lemma shape_leaf_below:
  assumes "1 \<le> k" "shape (Node a ll lr) (child_pos k L) n" "n < child_pos k R"
  shows "ll = EMPTY \<and> lr = EMPTY"
proof -
  from assms have "n < child_pos (child_pos k L) L" "n < child_pos (child_pos k L) R"
    by (simp_all add: child_pos_def)
  with assms(2) show ?thesis by (cases ll; cases lr) simp_all
qed

lemma bubble_down_order:
  assumes "consistent cmp" "1 \<le> k" "shape t k n" "t \<noteq> EMPTY"
    "order_inv cmp (left t)" "order_inv cmp (right t)"
  shows "\<exists>t'. bubble_down cmp t = Inr t' \<and> order_inv cmp t' \<and> mset_node t' = mset_node t"
  using assms
proof (induction cmp t arbitrary: k rule: bubble_down.induct)
  case (1 cmp)
  then show ?case by simp
next
  case (2 cmp x r)
  from 2(3) have "n < child_pos k R" by (simp add: child_pos_def)
  with 2(3) have "r = EMPTY" by (cases r) simp_all
  then show ?case by simp
next
  case (3 cmp x a ll lr)
  from 3(3) have "shape (Node a ll lr) (child_pos k L) n" "n < child_pos k R" by simp_all
  with 3(2) have e: "ll = EMPTY \<and> lr = EMPTY" by (rule shape_leaf_below)
  show ?case
  proof (cases "cmp x a")
    case True
    with 3(1) have "\<not> cmp a x" by (rule consistent_asym)
    with True e show ?thesis by simp
  next
    case False
    with e show ?thesis by simp
  qed
next
  case (4 cmp x a ll lr b rl rr)
  let ?l = "Node a ll lr" and ?r = "Node b rl rr"
  let ?comp = "if cmp a b then b else a"
  note cons = \<open>consistent cmp\<close>
  from "4.prems"(5,6) have ol: "order_inv cmp ?l" and orr: "order_inv cmp ?r" by simp_all
  from "4.prems"(2) have k1: "1 \<le> child_pos k L" "1 \<le> child_pos k R" by (simp_all add: child_pos_def)
  show ?case
  proof (cases "cmp x ?comp")
    case False
    have "\<not> cmp x a \<and> \<not> cmp x b"
    proof (cases "cmp a b")
      case True
      with False have xb: "\<not> cmp x b" by simp
      from cons True have "\<not> cmp b a" by (rule consistent_asym)
      with cons xb have "\<not> cmp x a" by (rule consistent_trans)
      with xb show ?thesis by simp
    next
      case ab: False
      with False have xa: "\<not> cmp x a" by simp
      from cons xa ab have "\<not> cmp x b" by (rule consistent_trans)
      with xa show ?thesis ..
    qed
    with False ol orr show ?thesis by (simp add: Let_def)
  next
    case True
    show ?thesis
    proof (cases "cmp b a")
      case ba: True
      with cons have ab: "\<not> cmp a b" by (rule consistent_asym)
      with True have "cmp x a" by simp
      with cons have ax: "\<not> cmp a x" by (rule consistent_asym)
      have sh: "shape (Node x ll lr) (child_pos k L) n" using "4.prems"(3) by simp
      have "Node x ll lr \<noteq> EMPTY" by simp
      moreover have "order_inv cmp (left (Node x ll lr))" "order_inv cmp (right (Node x ll lr))"
        using ol by simp_all
      ultimately obtain c where c: "bubble_down cmp (Node x ll lr) = Inr c"
        "order_inv cmp c" "mset_node c = mset_node (Node x ll lr)"
        using "4.IH"(1) [OF refl _ refl _ cons k1(1) sh] True ba by auto
      have "\<not> cmp a e" if "e \<in># mset_node c" for e
      proof -
        from that c(3) consider "e = x" | "e \<in># mset_node ll + mset_node lr" by auto
        then show ?thesis
        proof cases
          case 1
          with ax show ?thesis by simp
        next
          case 2
          with cons ol show ?thesis by (rule below_root)
        qed
      qed
      then have "root_ok cmp a c" by (rule root_okI)
      with ab c(2) orr have "order_inv cmp (Node a c ?r)" by simp
      moreover have "mset_node (Node a c ?r) = mset_node (Node x ?l ?r)"
        using c(3) by simp
      moreover have "bubble_down cmp (Node x ?l ?r) = Inr (Node a c ?r)"
        using True ba c(1) by (simp add: Let_def)
      ultimately show ?thesis by blast
    next
      case ba: False
      have bx: "\<not> cmp b x"
      proof (cases "cmp a b")
        case True
        with \<open>cmp x ?comp\<close> have "cmp x b" by simp
        with cons show ?thesis by (rule consistent_asym)
      next
        case False
        with \<open>cmp x ?comp\<close> have "cmp x a" by simp
        with cons have "\<not> cmp a x" by (rule consistent_asym)
        with cons ba show ?thesis by (rule consistent_trans)
      qed
      have sh: "shape (Node x rl rr) (child_pos k R) n" using "4.prems"(3) by simp
      have "Node x rl rr \<noteq> EMPTY" by simp
      moreover have "order_inv cmp (left (Node x rl rr))" "order_inv cmp (right (Node x rl rr))"
        using orr by simp_all
      ultimately obtain c where c: "bubble_down cmp (Node x rl rr) = Inr c"
        "order_inv cmp c" "mset_node c = mset_node (Node x rl rr)"
        using "4.IH"(2) [OF refl _ refl _ cons k1(2) sh] True ba by auto
      have "\<not> cmp b e" if "e \<in># mset_node c" for e
      proof -
        from that c(3) consider "e = x" | "e \<in># mset_node rl + mset_node rr" by auto
        then show ?thesis
        proof cases
          case 1
          with bx show ?thesis by simp
        next
          case 2
          with cons orr show ?thesis by (rule below_root)
        qed
      qed
      then have "root_ok cmp b c" by (rule root_okI)
      with ba c(2) ol have "order_inv cmp (Node b ?l c)" by simp
      moreover have "mset_node (Node b ?l c) = mset_node (Node x ?l ?r)"
        using c(3) by simp
      moreover have "bubble_down cmp (Node x ?l ?r) = Inr (Node b ?l c)"
        using True ba c(1) by (simp add: Let_def)
      ultimately show ?thesis by blast
    qed
  qed
qed


lemma insert_order:
  assumes "consistent (compare h)" "order_inv (compare h) (tree h)"
    "Heap_insert h (Node_leaf v) = Inr h'"
  shows "order_inv (compare h) (tree h')"
proof -
  define sz where "sz = (hsize h + 1) mod 2 ^ 32"
  define ds where "ds = get_dirlist sz"
  show ?thesis
  proof (cases "sz = 1")
    case True
    with assms(3) have "h' = h\<lparr>tree := Node_leaf v, hsize := sz\<rparr>"
      unfolding Heap_insert_def sz_def [symmetric]
      by (simp add: insert_leaf_def)
    then show ?thesis by (simp add: Node_leaf_def)
  next
    case False
    show ?thesis
    proof (cases "1 < sz")
      case True
      with assms(3) obtain t1 t2 where
        "insert_leaf_rec (tree h) (Node_leaf v) ds = Inr t1"
        "bubble_up_rec (compare h) t1 ds = Inr t2"
        "h' = h\<lparr>tree := t2, hsize := sz\<rparr>"
        unfolding Heap_insert_def sz_def [symmetric] ds_def
        by (auto simp: insert_leaf_def bubble_up_def Let_def split: sum.splits)
      with insert_bubble_order [OF assms(1,2)] show ?thesis by simp
    next
      case lt: False
      with False have "sz = 0" by simp
      with assms(3) show ?thesis
        unfolding Heap_insert_def sz_def [symmetric]
        by (simp add: insert_leaf_def get_dirlist_small)
    qed
  qed
qed

lemma pop_top_ok:
  assumes "heap_ok h" "tree h = Node d l r"
  shows "\<exists>h'. pop_top h = Inr (d, h') \<and> heap_ok h' \<and> compare h' = compare h \<and>
    (consistent (compare h) \<longrightarrow> order_inv (compare h) (tree h) \<longrightarrow>
       order_inv (compare h) (tree h'))"
proof -
  let ?n = "hsize h"
  from assms have lt: "?n < 2 ^ 32" and sh: "shape (tree h) 1 ?n"
    by (auto simp: heap_ok_def complete_tree_def)
  from sh assms(2) have n1: "1 \<le> ?n" by simp
  show ?thesis
  proof (cases "?n = 1")
    case True
    with assms(2) have "pop_top h = Inr (d, h\<lparr>tree := EMPTY\<rparr>)"
      by (simp add: pop_top_def)
    moreover have "heap_ok (h\<lparr>tree := EMPTY\<rparr>)" using True by (simp add: heap_ok_def)
    ultimately show ?thesis by simp
  next
    case False
    with n1 obtain m where m: "?n = Suc m" "1 \<le> m" by (cases ?n) auto
    let ?ds = "get_dirlist ?n"
    from False n1 have ne: "?ds \<noteq> []" by (intro get_dirlist_nonempty) simp
    have w: "walk 1 ?ds = Suc m" using walk_get_dirlist [OF n1] m by simp
    from sh have sh': "shape (tree h) 1 (Suc m)" using m by simp
    from pop_leaf_shape [OF _ sh' ne w] obtain t lf where t:
      "pop_leaf (tree h) ?ds = Inr (t, lf)" "shape t 1 m" "t \<noteq> EMPTY" by auto
    from t(3) obtain y l' r' where y: "t = Node y l' r'" by (cases t) auto
    let ?t = "Node (data lf) l' r'"
    have ne': "?t \<noteq> EMPTY" by simp
    from bubble_down_shape [OF this, of "compare h"] obtain t' where t':
      "bubble_down (compare h) ?t = Inr t'"
      "\<forall>k n. shape t' k n = shape ?t k n" by blast
    from t(2) have sht: "shape ?t 1 m" unfolding y by simp
    with t'(2) have sh2: "shape t' 1 m" by simp
    have ord: "order_inv (compare h) t'"
      if cons: "consistent (compare h)" and o: "order_inv (compare h) (tree h)"
    proof -
      from o t(1) have "order_inv (compare h) t" by (rule pop_leaf_order)
      then have "order_inv (compare h) (left ?t)" "order_inv (compare h) (right ?t)"
        unfolding y by simp_all
      with bubble_down_order [OF cons _ sht ne'] t'(1) show ?thesis by auto
    qed
    from False n1 assms(2) t(1) t'(1)
    have "pop_top h = Inr (d, h\<lparr>tree := t', hsize := ?n - 1\<rparr>)"
      unfolding y by (simp add: pop_top_def)
    moreover have "heap_ok (h\<lparr>tree := t', hsize := ?n - 1\<rparr>)"
      using sh2 m lt by (simp add: heap_ok_def complete_tree_def)
    ultimately show ?thesis using ord by simp
  qed
qed

lemma pop_top_tree: "pop_top h = Inr (v, h') \<Longrightarrow> \<exists>l r. tree h = Node v l r"
  by (cases "tree h") (auto simp: pop_top_def split: if_splits sum.splits prod.splits node.splits)

lemma pop_top_keeps:
  assumes "heap_ok h" "pop_top h = Inr (v, h')"
  shows "heap_ok h' \<and> compare h' = compare h \<and>
    (consistent (compare h) \<longrightarrow> order_inv (compare h) (tree h) \<longrightarrow>
       order_inv (compare h) (tree h'))"
proof -
  from pop_top_tree [OF assms(2)] obtain l r where "tree h = Node v l r" by blast
  from pop_top_ok [OF assms(1) this] assms(2) show ?thesis by auto
qed

lemma run_ok:
  "heap_ok h \<Longrightarrow> run h cs = Inr (vs, h') \<Longrightarrow> heap_ok h' \<and> compare h' = compare h"
proof (induction cs arbitrary: h vs)
  case Nil
  then show ?case by simp
next
  case (Cons c cs)
  show ?case
  proof (cases c)
    case (Insert v)
    with Cons.prems(2) obtain h1 where h1: "Heap_insert h (Node_leaf v) = Inr h1"
      "run h1 cs = Inr (vs, h')" by (auto split: sum.splits)
    from Heap_insert_ok [OF Cons.prems(1) h1(1)] Cons.IH [OF _ h1(2)] show ?thesis by simp
  next
    case Pop_top
    with Cons.prems(2) obtain v h1 vs' where h1: "pop_top h = Inr (v, h1)"
      "run h1 cs = Inr (vs', h')" by (auto split: sum.splits)
    from pop_top_keeps [OF Cons.prems(1) h1(1)] Cons.IH [OF _ h1(2)] show ?thesis by simp
  qed
qed

lemma run_order:
  "heap_ok h \<Longrightarrow> consistent (compare h) \<Longrightarrow> order_inv (compare h) (tree h) \<Longrightarrow>
     run h cs = Inr (vs, h') \<Longrightarrow> order_inv (compare h) (tree h')"
proof (induction cs arbitrary: h vs)
  case Nil
  then show ?case by simp
next
  case (Cons c cs)
  show ?case
  proof (cases c)
    case (Insert v)
    with Cons.prems(4) obtain h1 where h1: "Heap_insert h (Node_leaf v) = Inr h1"
      "run h1 cs = Inr (vs, h')" by (auto split: sum.splits)
    from Heap_insert_ok [OF Cons.prems(1) h1(1)]
    have w1: "heap_ok h1" and c1: "compare h1 = compare h" by simp_all
    from insert_order [OF Cons.prems(2,3) h1(1)]
    have "order_inv (compare h1) (tree h1)" unfolding c1 .
    with Cons.IH [OF w1 _ _ h1(2)] Cons.prems(2) show ?thesis unfolding c1 by simp
  next
    case Pop_top
    with Cons.prems(4) obtain v h1 vs' where h1: "pop_top h = Inr (v, h1)"
      "run h1 cs = Inr (vs', h')" by (auto split: sum.splits)
    from pop_top_keeps [OF Cons.prems(1) h1(1)] Cons.prems(2,3)
    have w1: "heap_ok h1" and c1: "compare h1 = compare h"
      and "order_inv (compare h) (tree h1)" by simp_all
    with Cons.IH [OF w1 _ _ h1(2)] Cons.prems(2) show ?thesis unfolding c1 by simp
  qed
qed

lemma heap_ok_Heap_custom: "heap_ok (Heap_custom cmp)"
  by (simp add: heap_ok_def complete_tree_def Heap_custom_def)

lemma Heap_default_custom: "Heap_default = Heap_custom (\<lambda>a b. a > b)"
  by (simp add: Heap_default_def Heap_custom_def)

lemma consistent_greater: "consistent (\<lambda>a b :: 'a :: linorder. a > b)"
  by (auto simp: consistent_def)

lemma consistent_less: "consistent (\<lambda>a b :: 'a :: linorder. a < b)"
  by (auto simp: consistent_def)


section \<open>Single calls on concrete heaps\<close>

text \<open>
  Each lemma evaluates one call on one heap; the sequences below are chained from them.
\<close>

lemma step_a_1:
  "Heap_insert (min_heap EMPTY 0) (Node_leaf 5) = Inr (min_heap (Node 5 EMPTY EMPTY) 1)"
  by (simp add: Heap_insert_def insert_leaf_def bubble_up_def get_dirlist_def
      get_dirlist_rec.simps Node_leaf_def)

lemma step_a_2:
  "Heap_insert (min_heap (Node 5 EMPTY EMPTY) 1) (Node_leaf 3) = Inr (min_heap (Node 3 (Node 5 EMPTY EMPTY) EMPTY) 2)"
  by (simp add: Heap_insert_def insert_leaf_def bubble_up_def get_dirlist_def
      get_dirlist_rec.simps Node_leaf_def)

lemma step_a_3:
  "Heap_insert (min_heap (Node 3 (Node 5 EMPTY EMPTY) EMPTY) 2) (Node_leaf 8) = Inr (min_heap (Node 3 (Node 5 EMPTY EMPTY) (Node 8 EMPTY EMPTY)) 3)"
  by (simp add: Heap_insert_def insert_leaf_def bubble_up_def get_dirlist_def
      get_dirlist_rec.simps Node_leaf_def)

lemma step_a_4:
  "Heap_insert (min_heap (Node 3 (Node 5 EMPTY EMPTY) (Node 8 EMPTY EMPTY)) 3) (Node_leaf 1) = Inr (min_heap (Node 1 (Node 3 (Node 5 EMPTY EMPTY) EMPTY) (Node 8 EMPTY EMPTY)) 4)"
  by (simp add: Heap_insert_def insert_leaf_def bubble_up_def get_dirlist_def
      get_dirlist_rec.simps Node_leaf_def)

lemma step_a_5:
  "Heap_insert (min_heap (Node 1 (Node 3 (Node 5 EMPTY EMPTY) EMPTY) (Node 8 EMPTY EMPTY)) 4) (Node_leaf 9) = Inr (min_heap (Node 1 (Node 3 (Node 5 EMPTY EMPTY) (Node 9 EMPTY EMPTY)) (Node 8 EMPTY EMPTY)) 5)"
  by (simp add: Heap_insert_def insert_leaf_def bubble_up_def get_dirlist_def
      get_dirlist_rec.simps Node_leaf_def)

lemma step_a_6:
  "Heap_insert (min_heap (Node 1 (Node 3 (Node 5 EMPTY EMPTY) (Node 9 EMPTY EMPTY)) (Node 8 EMPTY EMPTY)) 5) (Node_leaf 2) = Inr (min_heap (Node 1 (Node 3 (Node 5 EMPTY EMPTY) (Node 9 EMPTY EMPTY)) (Node 2 (Node 8 EMPTY EMPTY) EMPTY)) 6)"
  by (simp add: Heap_insert_def insert_leaf_def bubble_up_def get_dirlist_def
      get_dirlist_rec.simps Node_leaf_def)

lemma step_a_7:
  "pop_top (min_heap (Node 1 (Node 3 (Node 5 EMPTY EMPTY) (Node 9 EMPTY EMPTY)) (Node 2 (Node 8 EMPTY EMPTY) EMPTY)) 6) = Inr (1, (min_heap (Node 2 (Node 3 (Node 5 EMPTY EMPTY) (Node 9 EMPTY EMPTY)) (Node 2 EMPTY EMPTY)) 5))"
  by (simp add: pop_top_def get_dirlist_def get_dirlist_rec.simps Node_leaf_def)

lemma step_a_8:
  "pop_top (min_heap (Node 2 (Node 3 (Node 5 EMPTY EMPTY) (Node 9 EMPTY EMPTY)) (Node 2 EMPTY EMPTY)) 5) = Inr (2, (min_heap (Node 2 (Node 3 (Node 5 EMPTY EMPTY) EMPTY) (Node 3 EMPTY EMPTY)) 4))"
  by (simp add: pop_top_def get_dirlist_def get_dirlist_rec.simps Node_leaf_def)

lemma step_a_9:
  "pop_top (min_heap (Node 2 (Node 3 (Node 5 EMPTY EMPTY) EMPTY) (Node 3 EMPTY EMPTY)) 4) = Inr (2, (min_heap (Node 3 (Node 3 EMPTY EMPTY) (Node 3 EMPTY EMPTY)) 3))"
  by (simp add: pop_top_def get_dirlist_def get_dirlist_rec.simps Node_leaf_def)

lemma step_a_10:
  "pop_top (min_heap (Node 3 (Node 3 EMPTY EMPTY) (Node 3 EMPTY EMPTY)) 3) = Inr (3, (min_heap (Node 3 (Node 3 EMPTY EMPTY) EMPTY) 2))"
  by (simp add: pop_top_def get_dirlist_def get_dirlist_rec.simps Node_leaf_def)

lemma step_a_11:
  "pop_top (min_heap (Node 3 (Node 3 EMPTY EMPTY) EMPTY) 2) = Inr (3, (min_heap (Node 3 EMPTY EMPTY) 1))"
  by (simp add: pop_top_def get_dirlist_def get_dirlist_rec.simps Node_leaf_def)

lemma step_a_12:
  "pop_top (min_heap (Node 3 EMPTY EMPTY) 1) = Inr (3, (min_heap EMPTY 1))"
  by (simp add: pop_top_def get_dirlist_def get_dirlist_rec.simps Node_leaf_def)

lemma step_b_1:
  "Heap_insert (max_heap EMPTY 0) (Node_leaf 1) = Inr (max_heap (Node 1 EMPTY EMPTY) 1)"
  by (simp add: Heap_insert_def insert_leaf_def bubble_up_def get_dirlist_def
      get_dirlist_rec.simps Node_leaf_def)

lemma step_b_2:
  "Heap_insert (max_heap (Node 1 EMPTY EMPTY) 1) (Node_leaf 4) = Inr (max_heap (Node 4 (Node 1 EMPTY EMPTY) EMPTY) 2)"
  by (simp add: Heap_insert_def insert_leaf_def bubble_up_def get_dirlist_def
      get_dirlist_rec.simps Node_leaf_def)

lemma step_b_3:
  "Heap_insert (max_heap (Node 4 (Node 1 EMPTY EMPTY) EMPTY) 2) (Node_leaf 2) = Inr (max_heap (Node 4 (Node 1 EMPTY EMPTY) (Node 2 EMPTY EMPTY)) 3)"
  by (simp add: Heap_insert_def insert_leaf_def bubble_up_def get_dirlist_def
      get_dirlist_rec.simps Node_leaf_def)

lemma step_b_4:
  "Heap_insert (max_heap (Node 4 (Node 1 EMPTY EMPTY) (Node 2 EMPTY EMPTY)) 3) (Node_leaf 9) = Inr (max_heap (Node 9 (Node 4 (Node 1 EMPTY EMPTY) EMPTY) (Node 2 EMPTY EMPTY)) 4)"
  by (simp add: Heap_insert_def insert_leaf_def bubble_up_def get_dirlist_def
      get_dirlist_rec.simps Node_leaf_def)

lemma step_b_5:
  "Heap_insert (max_heap (Node 9 (Node 4 (Node 1 EMPTY EMPTY) EMPTY) (Node 2 EMPTY EMPTY)) 4) (Node_leaf 5) = Inr (max_heap (Node 9 (Node 5 (Node 1 EMPTY EMPTY) (Node 4 EMPTY EMPTY)) (Node 2 EMPTY EMPTY)) 5)"
  by (simp add: Heap_insert_def insert_leaf_def bubble_up_def get_dirlist_def
      get_dirlist_rec.simps Node_leaf_def)

lemma step_b_6:
  "pop_top (max_heap (Node 9 (Node 5 (Node 1 EMPTY EMPTY) (Node 4 EMPTY EMPTY)) (Node 2 EMPTY EMPTY)) 5) = Inr (9, (max_heap (Node 5 (Node 5 (Node 1 EMPTY EMPTY) EMPTY) (Node 2 EMPTY EMPTY)) 4))"
  by (simp add: pop_top_def get_dirlist_def get_dirlist_rec.simps Node_leaf_def)

lemma step_b_7:
  "pop_top (max_heap (Node 5 (Node 5 (Node 1 EMPTY EMPTY) EMPTY) (Node 2 EMPTY EMPTY)) 4) = Inr (5, (max_heap (Node 5 (Node 5 EMPTY EMPTY) (Node 2 EMPTY EMPTY)) 3))"
  by (simp add: pop_top_def get_dirlist_def get_dirlist_rec.simps Node_leaf_def)

lemma step_b_8:
  "pop_top (max_heap (Node 5 (Node 5 EMPTY EMPTY) (Node 2 EMPTY EMPTY)) 3) = Inr (5, (max_heap (Node 5 (Node 5 EMPTY EMPTY) EMPTY) 2))"
  by (simp add: pop_top_def get_dirlist_def get_dirlist_rec.simps Node_leaf_def)

lemma step_b_9:
  "pop_top (max_heap (Node 5 (Node 5 EMPTY EMPTY) EMPTY) 2) = Inr (5, (max_heap (Node 5 EMPTY EMPTY) 1))"
  by (simp add: pop_top_def get_dirlist_def get_dirlist_rec.simps Node_leaf_def)

lemma step_b_10:
  "pop_top (max_heap (Node 5 EMPTY EMPTY) 1) = Inr (5, (max_heap EMPTY 1))"
  by (simp add: pop_top_def get_dirlist_def get_dirlist_rec.simps Node_leaf_def)

lemma step_c_1:
  "Heap_insert (min_heap EMPTY 0) (Node_leaf 1) = Inr (min_heap (Node 1 EMPTY EMPTY) 1)"
  by (simp add: Heap_insert_def insert_leaf_def bubble_up_def get_dirlist_def
      get_dirlist_rec.simps Node_leaf_def)

lemma step_c_2:
  "pop_top (min_heap (Node 1 EMPTY EMPTY) 1) = Inr (1, (min_heap EMPTY 1))"
  by (simp add: pop_top_def get_dirlist_def get_dirlist_rec.simps Node_leaf_def)

lemma step_c_3:
  "Heap_insert (min_heap EMPTY 1) (Node_leaf 2) = Inl NullDeref"
  by (simp add: Heap_insert_def insert_leaf_def bubble_up_def get_dirlist_def
      get_dirlist_rec.simps Node_leaf_def)

lemma step_d_2:
  "Heap_insert (min_heap (Node 1 EMPTY EMPTY) 1) (Node_leaf 2) = Inr (min_heap (Node 1 (Node 2 EMPTY EMPTY) EMPTY) 2)"
  by (simp add: Heap_insert_def insert_leaf_def bubble_up_def get_dirlist_def
      get_dirlist_rec.simps Node_leaf_def)

lemma step_d_3:
  "Heap_insert (min_heap (Node 1 (Node 2 EMPTY EMPTY) EMPTY) 2) (Node_leaf 3) = Inr (min_heap (Node 1 (Node 2 EMPTY EMPTY) (Node 3 EMPTY EMPTY)) 3)"
  by (simp add: Heap_insert_def insert_leaf_def bubble_up_def get_dirlist_def
      get_dirlist_rec.simps Node_leaf_def)

lemma step_d_4:
  "Heap_insert (min_heap (Node 1 (Node 2 EMPTY EMPTY) (Node 3 EMPTY EMPTY)) 3) (Node_leaf 4) = Inr (min_heap (Node 1 (Node 2 (Node 4 EMPTY EMPTY) EMPTY) (Node 3 EMPTY EMPTY)) 4)"
  by (simp add: Heap_insert_def insert_leaf_def bubble_up_def get_dirlist_def
      get_dirlist_rec.simps Node_leaf_def)

lemma step_d_5:
  "pop_top (min_heap (Node 1 (Node 2 (Node 4 EMPTY EMPTY) EMPTY) (Node 3 EMPTY EMPTY)) 4) = Inr (1, (min_heap (Node 2 (Node 2 EMPTY EMPTY) (Node 3 EMPTY EMPTY)) 3))"
  by (simp add: pop_top_def get_dirlist_def get_dirlist_rec.simps Node_leaf_def)

lemma step_e_1:
  "Heap_insert (min_heap EMPTY 0) (Node_leaf 7) = Inr (min_heap (Node 7 EMPTY EMPTY) 1)"
  by (simp add: Heap_insert_def insert_leaf_def bubble_up_def get_dirlist_def
      get_dirlist_rec.simps Node_leaf_def)

lemma step_e_2:
  "pop_top (min_heap (Node 7 EMPTY EMPTY) 1) = Inr (7, (min_heap EMPTY 1))"
  by (simp add: pop_top_def get_dirlist_def get_dirlist_rec.simps Node_leaf_def)

lemma step_f_3:
  "pop_top (min_heap EMPTY 1) = Inl NullDeref"
  by (simp add: pop_top_def get_dirlist_def get_dirlist_rec.simps Node_leaf_def)

lemmas run_eval = run.simps sum.case prod.case Heap_default_def Heap_custom_def
  list.map append.simps

section \<open>The claims\<close>

text \<open>
  C1. Order invariant. Take a heap made by the constructor with a predicate that is pure
  (a function) and consistent, and any sequence of \<^verbatim>\<open>insert\<close> and \<^verbatim>\<open>pop_top\<close> calls
  that all return. Then in the tree no node \<open>p\<close> with a child \<open>c\<close> has
  \<open>predicate p.value c.value\<close>. The sequence is arbitrary, so this holds after every
  call of it. The default heap is the instance \<open>Heap_custom (\<lambda>a b. a > b)\<close>.
\<close>

theorem order_invariant:
  assumes "consistent cmp" "run (Heap_custom cmp) cs = Inr (vs, h)"
  shows "order_inv cmp (tree h)"
proof -
  have "order_inv (compare (Heap_custom cmp)) (tree h)"
    using assms by (intro run_order [OF heap_ok_Heap_custom _ _ assms(2)])
      (simp_all add: Heap_custom_def)
  then show ?thesis by (simp add: Heap_custom_def)
qed

text \<open>The invariant at work on the default predicate, six inserts and two pops.\<close>

theorem order_invariant_witness:
  "consistent (\<lambda>a b :: int. a > b) \<and>
   run (Heap_custom (\<lambda>a b. a > b))
     [Insert 5, Insert 3, Insert 8, Insert 1, Insert 9, Insert 2, Pop_top, Pop_top]
     = Inr ([1, 2], min_heap (Node 2 (Node 3 (Node 5 EMPTY EMPTY) EMPTY) (Node 3 EMPTY EMPTY)) 4) \<and>
   order_inv (\<lambda>a b. a > b)
     (tree (min_heap (Node 2 (Node 3 (Node 5 EMPTY EMPTY) EMPTY) (Node 3 EMPTY EMPTY)) 4))"
proof -
  have c: "consistent (\<lambda>a b :: int. a > b)" by (rule consistent_greater)
  have r: "run (Heap_custom (\<lambda>a b. a > b))
     [Insert 5, Insert 3, Insert 8, Insert 1, Insert 9, Insert 2, Pop_top, Pop_top]
     = Inr ([1, 2], min_heap (Node 2 (Node 3 (Node 5 EMPTY EMPTY) EMPTY) (Node 3 EMPTY EMPTY)) 4)"
    by (simp only: run_eval step_a_1 step_a_2 step_a_3 step_a_4 step_a_5 step_a_6
        step_a_7 step_a_8)
  from c r order_invariant [OF c r] show ?thesis by (intro conjI)
qed

text \<open>
  C2. Shape invariant: after \<open>N\<close> inserts and \<open>M\<close> pops the tree is complete with
  \<open>N - M\<close> nodes. The code does not keep it: \<^verbatim>\<open>pop_top\<close> on a single element clears the
  tree and leaves the count at 1, so the next \<^verbatim>\<open>insert\<close> looks for position 2 below a
  null root. After one insert, one pop and one insert there is no tree with one node:
  the third call dereferences the null pointer.
\<close>

theorem shape_lost_after_last_pop:
  "run Heap_default [Insert (1::int), Pop_top, Insert 2] = Inl NullDeref"
  by (simp only: run_eval step_c_1 step_c_2 step_c_3)

text \<open>
  C3. \<^verbatim>\<open>pop_top\<close> on two or more elements promotes the value of the detached last leaf
  into the root. The code records \<^verbatim>\<open>node->data\<close>, the value of the leaf's parent: on
  the heap built from 1, 2, 3, 4 the last leaf holds 4, \<^verbatim>\<open>pop_leaf\<close> returns 2, and
  after the pop the heap holds 2, 2, 3 and no 4.
\<close>

theorem pop_top_promotes_parent_value:
  "run Heap_default [Insert 1, Insert 2, Insert 3, Insert 4]
     = Inr ([], min_heap (Node 1 (Node 2 (Node 4 EMPTY EMPTY) EMPTY) (Node 3 EMPTY EMPTY)) 4) \<and>
   get_dirlist 4 = [L, L] \<and>
   pop_leaf (Node 1 (Node 2 (Node 4 EMPTY EMPTY) EMPTY) (Node 3 EMPTY EMPTY)) [L, L]
     = Inr (Node 1 (Node 2 EMPTY EMPTY) (Node 3 EMPTY EMPTY), Node_leaf (2::int)) \<and>
   pop_top (min_heap (Node 1 (Node 2 (Node 4 EMPTY EMPTY) EMPTY) (Node 3 EMPTY EMPTY)) 4)
     = Inr (1, min_heap (Node 2 (Node 2 EMPTY EMPTY) (Node 3 EMPTY EMPTY)) 3)"
proof -
  have "run Heap_default [Insert 1, Insert 2, Insert 3, Insert 4]
     = Inr ([], min_heap (Node 1 (Node 2 (Node 4 EMPTY EMPTY) EMPTY) (Node 3 EMPTY EMPTY)) 4)"
    by (simp only: run_eval step_c_1 step_d_2 step_d_3 step_d_4)
  moreover have "get_dirlist 4 = [L, L]"
    by (simp add: get_dirlist_def get_dirlist_rec.simps)
  moreover have
    "pop_leaf (Node 1 (Node 2 (Node 4 EMPTY EMPTY) EMPTY) (Node 3 EMPTY EMPTY)) [L, L]
     = Inr (Node 1 (Node 2 EMPTY EMPTY) (Node 3 EMPTY EMPTY), Node_leaf (2::int))"
    by simp
  ultimately show ?thesis using step_d_5 by (intro conjI)
qed

text \<open>
  C4. Size accounting: \<^verbatim>\<open>get_size\<close> is the number of inserts minus the number of pops.
  After one insert and one pop the code reports 1.
\<close>

theorem size_kept_by_last_pop:
  "run Heap_default [Insert (7::int), Pop_top] = Inr ([7], min_heap EMPTY 1) \<and>
   get_size (min_heap EMPTY 1) = 1"
proof -
  have "run Heap_default [Insert (7::int), Pop_top] = Inr ([7], min_heap EMPTY 1)"
    by (simp only: run_eval step_e_1 step_e_2)
  then show ?thesis by (simp add: get_size_def)
qed

text \<open>
  C5. Extraction order: the default heap filled with 5, 3, 8, 1, 9, 2 is to return
  1, 2, 3, 5, 8, 9 and end with size 0. The code returns 1, 2, 2, 3, 3, 3 and ends with
  size 1.
\<close>

theorem extraction_order_default:
  "run Heap_default [Insert 5, Insert 3, Insert 8, Insert 1, Insert 9, Insert 2,
     Pop_top, Pop_top, Pop_top, Pop_top, Pop_top, Pop_top]
   = Inr ([1, 2, 2, 3, 3, 3], min_heap EMPTY 1) \<and>
   get_size (min_heap EMPTY 1) = 1"
proof -
  have "run Heap_default [Insert 5, Insert 3, Insert 8, Insert 1, Insert 9, Insert 2,
     Pop_top, Pop_top, Pop_top, Pop_top, Pop_top, Pop_top]
   = Inr ([1, 2, 2, 3, 3, 3], min_heap EMPTY 1)"
    by (simp only: run_eval step_a_1 step_a_2 step_a_3 step_a_4 step_a_5 step_a_6
        step_a_7 step_a_8 step_a_9 step_a_10 step_a_11 step_a_12)
  then show ?thesis by (simp add: get_size_def)
qed

text \<open>
  C6. Path encoder: for \<open>n \<ge> 1\<close> the directions of \<^verbatim>\<open>get_dirlist(n)\<close> are the binary
  digits of \<open>n\<close> below its leading digit, most significant first, 0 as \<open>L\<close> and 1 as
  \<open>R\<close>: there are as many directions as digits below the leading one, the digit at the
  length is the leading 1, and direction \<open>i\<close> is the digit \<open>length - 1 - i\<close>. Following
  them from position 1 through the children \<open>2 * k\<close> and \<open>2 * k + 1\<close> ends at position
  \<open>n\<close>; for \<open>n = 1\<close> there is no direction.
\<close>

theorem path_encoder:
  assumes "1 \<le> n"
  shows "walk 1 (get_dirlist n) = n \<and>
    2 ^ length (get_dirlist n) \<le> n \<and> n < 2 ^ Suc (length (get_dirlist n)) \<and>
    bit n (length (get_dirlist n)) \<and>
    (\<forall>i < length (get_dirlist n).
       (get_dirlist n ! i = L \<longleftrightarrow> \<not> bit n (length (get_dirlist n) - 1 - i)) \<and>
       (get_dirlist n ! i = R \<longleftrightarrow> bit n (length (get_dirlist n) - 1 - i))) \<and>
    get_dirlist 1 = []"
proof -
  let ?ds = "get_dirlist n"
  from length_get_dirlist [OF assms]
  have lo: "2 ^ length ?ds \<le> n" and hi: "n < 2 ^ Suc (length ?ds)" by simp_all
  have "n div 2 ^ length ?ds = 1"
    using lo hi by (intro div_nat_eqI) simp_all
  then have top: "bit n (length ?ds)" by (simp add: bit_iff_odd)
  have bits: "(?ds ! i = L \<longleftrightarrow> \<not> bit n (length ?ds - 1 - i)) \<and>
       (?ds ! i = R \<longleftrightarrow> bit n (length ?ds - 1 - i))" if "i < length ?ds" for i
    using bits_get_dirlist [OF assms that] by (cases "?ds ! i") simp_all
  from walk_get_dirlist [OF assms] lo hi top bits show ?thesis
    by (simp add: get_dirlist_small)
qed

text \<open>Position 6 is binary 110: right, then left.\<close>

theorem path_encoder_witness:
  "(1::nat) \<le> 6 \<and> get_dirlist 6 = [R, L] \<and> walk 1 (get_dirlist 6) = 6 \<and>
   bit (6::nat) 2 \<and> bit (6::nat) 1 \<and> \<not> bit (6::nat) 0"
proof -
  have d: "get_dirlist 6 = [R, L]"
    by (simp add: get_dirlist_def get_dirlist_rec.simps)
  have n: "(1::nat) \<le> 6" by simp
  from path_encoder [OF n]
  have a: "walk 1 (get_dirlist 6) = 6"
    and b: "bit (6::nat) (length (get_dirlist 6))"
    and c: "\<forall>i < length (get_dirlist 6).
       (get_dirlist 6 ! i = L \<longleftrightarrow> \<not> bit (6::nat) (length (get_dirlist 6) - 1 - i)) \<and>
       (get_dirlist 6 ! i = R \<longleftrightarrow> bit (6::nat) (length (get_dirlist 6) - 1 - i))"
    by blast+
  from b have "bit (6::nat) 2" unfolding d by simp
  moreover from c [rule_format, of 0] have "bit (6::nat) 1" unfolding d by simp
  moreover from c [rule_format, of 1] have "\<not> bit (6::nat) 0" unfolding d by simp
  ultimately show ?thesis using n d a by (intro conjI)
qed

text \<open>
  C7. \<^verbatim>\<open>pop_top\<close> and \<^verbatim>\<open>get_top\<close> return the root's value, and a single inserted value
  comes back from both, after which the size is 0. The values do come back; the size
  after the pop is 1.
\<close>

theorem single_element_round_trip:
  "Heap_insert Heap_default (Node_leaf (7::int)) = Inr (min_heap (Node 7 EMPTY EMPTY) 1) \<and>
   get_top (min_heap (Node 7 EMPTY EMPTY) 1) = Inr 7 \<and>
   pop_top (min_heap (Node 7 EMPTY EMPTY) 1) = Inr (7, min_heap EMPTY 1) \<and>
   get_size (min_heap EMPTY 1) = 1"
proof -
  have "Heap_insert Heap_default (Node_leaf (7::int)) = Inr (min_heap (Node 7 EMPTY EMPTY) 1)"
    by (simp only: Heap_default_def step_e_1)
  moreover have "get_top (min_heap (Node 7 EMPTY EMPTY) 1) = Inr 7"
    by (simp add: get_top_def)
  moreover have "get_size (min_heap EMPTY 1) = 1"
    by (simp add: get_size_def)
  ultimately show ?thesis using step_e_2 by (intro conjI)
qed

text \<open>
  C8. Fatal on empty: \<^verbatim>\<open>pop_top\<close> and \<^verbatim>\<open>get_top\<close> on a heap without elements stop at
  an assertion. On a fresh heap both do. On the heap left by an insert and a pop,
  \<^verbatim>\<open>get_top\<close> does, and \<^verbatim>\<open>pop_top\<close> passes \<^verbatim>\<open>assert(size > 0)\<close>, the count being
  1, and reads through the null root.
\<close>

theorem pop_top_on_emptied_heap:
  "pop_top (Heap_default :: int Heap) = Inl AssertFail \<and>
   get_top (Heap_default :: int Heap) = Inl AssertFail \<and>
   run Heap_default [Insert (1::int), Pop_top] = Inr ([1], min_heap EMPTY 1) \<and>
   get_top (min_heap EMPTY 1) = Inl AssertFail \<and>
   pop_top (min_heap EMPTY 1) = Inl NullDeref"
proof -
  have "pop_top (Heap_default :: int Heap) = Inl AssertFail"
    by (simp add: pop_top_def Heap_default_def)
  moreover have "get_top (Heap_default :: int Heap) = Inl AssertFail"
    by (simp add: get_top_def Heap_default_def)
  moreover have "run Heap_default [Insert (1::int), Pop_top] = Inr ([1], min_heap EMPTY 1)"
    by (simp only: run_eval step_c_1 step_c_2)
  moreover have "get_top (min_heap EMPTY 1) = Inl AssertFail"
    by (simp add: get_top_def)
  ultimately show ?thesis using step_f_3 by (intro conjI)
qed

text \<open>
  C9. Custom predicate: a heap with \<^verbatim>\<open>a < b\<close> filled with 1, 4, 2, 9, 5 is to return
  9, 5, 4, 2, 1. The code returns 9, 5, 5, 5, 5.
\<close>

theorem extraction_order_custom:
  "run (Heap_custom (\<lambda>a b. a < b)) [Insert 1, Insert 4, Insert 2, Insert 9, Insert 5,
     Pop_top, Pop_top, Pop_top, Pop_top, Pop_top]
   = Inr ([9, 5, 5, 5, 5], max_heap EMPTY 1)"
  by (simp only: run_eval step_b_1 step_b_2 step_b_3 step_b_4 step_b_5 step_b_6
      step_b_7 step_b_8 step_b_9 step_b_10)

text \<open>
  C10. On every heap with size at least 1, \<^verbatim>\<open>get_top\<close> returns the value that
  \<^verbatim>\<open>pop_top\<close> would return. The heap left by an insert and a pop has size 1 and no
  tree, the single-element branch of \<^verbatim>\<open>pop_top\<close> having returned before \<^verbatim>\<open>size--\<close>. On
  it neither call returns a value: \<^verbatim>\<open>get_top\<close> stops at its assertion, and \<^verbatim>\<open>pop_top\<close>
  passes its own and reads through the null root.
\<close>

theorem get_top_pop_top_no_value:
  "run Heap_default [Insert (1::int), Pop_top] = Inr ([1], min_heap EMPTY 1) \<and>
   1 \<le> get_size (min_heap EMPTY 1) \<and>
   get_top (min_heap EMPTY 1) \<noteq> Inr v \<and>
   pop_top (min_heap EMPTY 1) \<noteq> Inr (v, h') \<and>
   get_top (min_heap EMPTY 1) = Inl AssertFail \<and>
   pop_top (min_heap EMPTY 1) = Inl NullDeref"
proof -
  have "run Heap_default [Insert (1::int), Pop_top] = Inr ([1], min_heap EMPTY 1)"
    by (simp only: run_eval step_c_1 step_c_2)
  moreover have "1 \<le> get_size (min_heap EMPTY 1)"
    by (simp add: get_size_def)
  moreover have g: "get_top (min_heap EMPTY 1) = Inl AssertFail"
    by (simp add: get_top_def)
  moreover from g have "get_top (min_heap EMPTY 1) \<noteq> Inr v" by simp
  moreover from step_f_3 have "pop_top (min_heap EMPTY 1) \<noteq> Inr (v, h')" by simp
  ultimately show ?thesis using step_f_3 by (intro conjI)
qed

end
